theory Spec2Isabelle
  imports Complex_Main
begin

section \<open>Failures\<close>

text \<open>
  Values that a task can reject with, and that the toolkit itself throws.
  \<^item> \<open>ApiError statusCode message details\<close> is an instance of the class \<open>ApiError\<close>
    of \<^verbatim>\<open>error.ts\<close> (a subclass of the native \<open>Error\<close>); its fields \<open>name\<close>,
    \<open>isOperational\<close>, \<open>timestamp\<close> and the stack are not modelled.
  \<^item> \<open>Error message\<close> is a native \<open>Error\<close> that is not an \<open>ApiError\<close>.
  \<^item> \<open>NonError s\<close> is a thrown value that is not an instance of \<open>Error\<close> (a string,
    a number, a plain object, \<open>undefined\<close>); \<open>s\<close> is the text \<open>String(value)\<close> yields.
  A detail value is a string, or the ISO-8601 rendering of the \<open>Date\<close> with the
  given epoch milliseconds (\<open>new Date(t).toISOString()\<close>).
\<close>

datatype detail = Str string | IsoTime int

datatype thrown =
    ApiError int string "(string \<times> detail) list option"
  | Error string
  | NonError string

text \<open>\<open>error instanceof Error\<close>.\<close>

fun instanceof_Error :: "thrown \<Rightarrow> bool" where
  "instanceof_Error (ApiError c m d) = True"
| "instanceof_Error (Error m) = True"
| "instanceof_Error (NonError s) = False"

text \<open>\<open>error instanceof Error ? error : new Error(String(error))\<close>.\<close>

fun toError :: "thrown \<Rightarrow> thrown" where
  "toError (NonError s) = Error s"
| "toError e = e"

fun statusCode :: "thrown \<Rightarrow> int option" where
  "statusCode (ApiError c m d) = Some c"
| "statusCode e = None"

section \<open>retryAsync (async.ts)\<close>

text \<open>
  The options of \<open>retryAsync\<close>. Durations and the multiplier are JavaScript numbers; they
  are modelled as rationals with exact arithmetic. \<open>retries\<close> is an integer. An optional
  field is \<open>None\<close> when the caller leaves it out. The observer \<open>onRetry\<close> is a callback
  into the caller's code: the model records whether it is supplied and logs each call.
\<close>

record RetryOptions =
  retries :: int
  delay :: "rat option"
  backoffMultiplier :: "rat option"
  maxDelay :: "rat option"
  shouldRetry :: "(thrown \<Rightarrow> nat \<Rightarrow> bool) option"
  onRetry :: bool

text \<open>The effects of one run of \<open>retryAsync\<close>, in the order they happen.\<close>

datatype retry_event =
    Invoke nat          \<comment> \<open>\<open>fn()\<close> is called; the argument is the attempt index\<close>
  | OnRetry thrown nat  \<comment> \<open>\<open>onRetry(lastError, attempt + 1)\<close>\<close>
  | Sleep rat           \<comment> \<open>\<open>await sleep(currentDelay)\<close>\<close>

definition delay_of :: "RetryOptions \<Rightarrow> rat" where
  "delay_of opts = (case delay opts of None \<Rightarrow> 1000 | Some d \<Rightarrow> d)"

definition backoffMultiplier_of :: "RetryOptions \<Rightarrow> rat" where
  "backoffMultiplier_of opts = (case backoffMultiplier opts of None \<Rightarrow> 1 | Some m \<Rightarrow> m)"

definition maxDelay_of :: "RetryOptions \<Rightarrow> rat" where
  "maxDelay_of opts = (case maxDelay opts of None \<Rightarrow> 30000 | Some m \<Rightarrow> m)"

definition shouldRetry_of :: "RetryOptions \<Rightarrow> thrown \<Rightarrow> nat \<Rightarrow> bool" where
  "shouldRetry_of opts = (case shouldRetry opts of None \<Rightarrow> (\<lambda>e a. True) | Some p \<Rightarrow> p)"

text \<open>
  The \<open>for\<close> loop of \<open>retryAsync\<close>. The task \<open>fn\<close> is given by the outcome of each of its
  invocations: \<open>fn i\<close> is what the call made in attempt \<open>i\<close> settles with (\<open>Inl\<close> a
  rejection, \<open>Inr\<close> a value). The loop state is the attempt index, \<open>currentDelay\<close> and
  \<open>lastError\<close> (\<open>None\<close> is \<open>undefined\<close>); \<open>effects\<close> collects the effects so far.
\<close>

function retry_loop ::
  "(nat \<Rightarrow> thrown + 'a) \<Rightarrow> RetryOptions \<Rightarrow> nat \<Rightarrow> rat \<Rightarrow> thrown option \<Rightarrow> retry_event list
     \<Rightarrow> (thrown + 'a) \<times> retry_event list"
where
  "retry_loop fn opts attempt currentDelay lastError effects =
     (if int attempt \<le> retries opts then
        (case fn attempt of
           Inr v \<Rightarrow> (Inr v, effects @ [Invoke attempt])
         | Inl error \<Rightarrow>
             (let lastError' = toError error in
              if int attempt = retries opts \<or> \<not> shouldRetry_of opts lastError' attempt
              then (Inl lastError', effects @ [Invoke attempt])
              else retry_loop fn opts (attempt + 1)
                     (min (currentDelay * backoffMultiplier_of opts) (maxDelay_of opts))
                     (Some lastError')
                     (effects @ [Invoke attempt]
                          @ (if onRetry opts then [OnRetry lastError' (attempt + 1)] else [])
                          @ [Sleep currentDelay])))
      else
        (case lastError of
           None \<Rightarrow> (Inl (NonError ''undefined''), effects)
         | Some e \<Rightarrow> (Inl e, effects)))"
  by pat_completeness auto
termination
  by (relation "measure (\<lambda>(fn, opts, attempt, currentDelay, lastError, effects).
        nat (retries opts + 1 - int attempt))") auto

definition retryAsync ::
  "(nat \<Rightarrow> thrown + 'a) \<Rightarrow> RetryOptions \<Rightarrow> (thrown + 'a) \<times> retry_event list" where
  "retryAsync fn opts = retry_loop fn opts 0 (delay_of opts) None []"

text \<open>Projections of the effect log.\<close>

fun sleeps :: "retry_event list \<Rightarrow> rat list" where
  "sleeps [] = []"
| "sleeps (Sleep d # es) = d # sleeps es"
| "sleeps (e # es) = sleeps es"



text \<open>
  The value of \<open>currentDelay\<close> after \<open>k\<close> executions of
  \<open>currentDelay = Math.min(currentDelay * backoffMultiplier, maxDelay)\<close>, starting from \<open>d\<close>.
\<close>

primrec backoff :: "rat \<Rightarrow> rat \<Rightarrow> rat \<Rightarrow> nat \<Rightarrow> rat" where
  "backoff d m M 0 = d"
| "backoff d m M (Suc k) = min (backoff d m M k * m) M"

text \<open>
  The effects of attempt \<open>i\<close> of a run that started retrying at attempt \<open>a\<close> with delay
  \<open>d\<close>, when the attempt fails with \<open>e i\<close> and is retried.
\<close>

definition attempt_effects ::
  "RetryOptions \<Rightarrow> (nat \<Rightarrow> thrown) \<Rightarrow> rat \<Rightarrow> nat \<Rightarrow> nat \<Rightarrow> retry_event list" where
  "attempt_effects opts e d a i =
     [Invoke i] @ (if onRetry opts then [OnRetry (toError (e i)) (i + 1)] else [])
       @ [Sleep (backoff d (backoffMultiplier_of opts) (maxDelay_of opts) (i - a))]"

section \<open>semaphore (concurrency.ts)\<close>

text \<open>
  The closure state of \<open>semaphore(limit)\<close>: the counter \<open>count\<close> and the array \<open>queue\<close> of
  the \<open>resolve\<close> functions of the pending \<open>acquire()\<close> promises. A waiter is named by a
  value of type \<open>'w\<close> chosen by the caller. \<open>limit\<close> is an argument of every operation.
\<close>

record 'w Semaphore =
  count :: int
  queue :: "'w list"

definition semaphore :: "'w Semaphore" where
  "semaphore = \<lparr>count = 0, queue = []\<rparr>"

text \<open>\<open>acquire()\<close>: the flag says whether the promise is resolved at once.\<close>

definition acquire :: "int \<Rightarrow> 'w Semaphore \<Rightarrow> 'w \<Rightarrow> bool \<times> 'w Semaphore" where
  "acquire limit s w =
     (if count s < limit then (True, s\<lparr>count := count s + 1\<rparr>)
      else (False, s\<lparr>queue := queue s @ [w]\<rparr>))"

text \<open>\<open>release()\<close>: the result names the waiter whose promise is resolved, if any.\<close>

definition release :: "'w Semaphore \<Rightarrow> 'w option \<times> 'w Semaphore" where
  "release s =
     (case queue s of
        next # rest \<Rightarrow> (Some next, s\<lparr>queue := rest\<rparr>)
      | [] \<Rightarrow> (None, s\<lparr>count := count s - 1\<rparr>))"

definition available :: "int \<Rightarrow> 'w Semaphore \<Rightarrow> int" where
  "available limit s = limit - count s"

definition pending :: "'w Semaphore \<Rightarrow> int" where
  "pending s = int (length (queue s))"

text \<open>Sequences of calls on one semaphore, with what each call did.\<close>

datatype 'w sem_op = Acquire 'w | Release

datatype 'w sem_response =
    Resolved 'w     \<comment> \<open>\<open>acquire()\<close> resolved at once\<close>
  | Enqueued 'w     \<comment> \<open>\<open>acquire()\<close> left pending in the queue\<close>
  | Woke 'w         \<comment> \<open>\<open>release()\<close> resolved this waiter\<close>
  | Decremented     \<comment> \<open>\<open>release()\<close> found the queue empty\<close>

fun sem_step :: "int \<Rightarrow> 'w Semaphore \<Rightarrow> 'w sem_op \<Rightarrow> 'w sem_response \<times> 'w Semaphore" where
  "sem_step limit s (Acquire w) =
     (case acquire limit s w of (True, s') \<Rightarrow> (Resolved w, s') | (False, s') \<Rightarrow> (Enqueued w, s'))"
| "sem_step limit s Release =
     (case release s of (Some w, s') \<Rightarrow> (Woke w, s') | (None, s') \<Rightarrow> (Decremented, s'))"

fun sem_run :: "int \<Rightarrow> 'w Semaphore \<Rightarrow> 'w sem_op list \<Rightarrow> 'w sem_response list \<times> 'w Semaphore" where
  "sem_run limit s [] = ([], s)"
| "sem_run limit s (op # ops) =
     (case sem_step limit s op of (r, s') \<Rightarrow>
        (case sem_run limit s' ops of (rs, s'') \<Rightarrow> (r # rs, s'')))"

fun woken :: "'w sem_response list \<Rightarrow> 'w list" where
  "woken [] = []"
| "woken (Woke w # rs) = w # woken rs"
| "woken (r # rs) = woken rs"

fun enqueued :: "'w sem_response list \<Rightarrow> 'w list" where
  "enqueued [] = []"
| "enqueued (Enqueued w # rs) = w # enqueued rs"
| "enqueued (r # rs) = enqueued rs"

section \<open>bulkhead (resilience)\<close>













section \<open>CircuitBreaker (resilience)\<close>

datatype CircuitBreakerState = CLOSED | OPEN | HALF_OPEN

record CircuitBreakerOptions =
  failureThreshold :: int
  resetTimeout :: int
  successThreshold :: "int option"
  shouldTrip :: "(thrown \<Rightarrow> bool) option"

text \<open>
  The constructor spreads the caller's options over the defaults \<open>successThreshold: 2\<close>
  and \<open>shouldTrip: () => true\<close>; the model keeps the caller's options and reads them
  through these two functions.
\<close>

definition successThreshold_of :: "CircuitBreakerOptions \<Rightarrow> int" where
  "successThreshold_of opts = (case successThreshold opts of None \<Rightarrow> 2 | Some n \<Rightarrow> n)"

definition shouldTrip_of :: "CircuitBreakerOptions \<Rightarrow> thrown \<Rightarrow> bool" where
  "shouldTrip_of opts = (case shouldTrip opts of None \<Rightarrow> (\<lambda>e. True) | Some p \<Rightarrow> p)"

text \<open>Times are values of \<open>Date.now()\<close>: integer milliseconds.\<close>

record CircuitBreaker =
  state :: CircuitBreakerState
  failureCount :: int
  successCount :: int
  lastFailureTime :: int
  options :: CircuitBreakerOptions

definition CircuitBreaker_new :: "CircuitBreakerOptions \<Rightarrow> CircuitBreaker" where
  "CircuitBreaker_new opts =
     \<lparr>state = CLOSED, failureCount = 0, successCount = 0, lastFailureTime = 0, options = opts\<rparr>"

definition updateState :: "CircuitBreaker \<Rightarrow> int \<Rightarrow> CircuitBreaker" where
  "updateState cb now =
     (if state cb = OPEN \<and> now - lastFailureTime cb \<ge> resetTimeout (options cb)
      then cb\<lparr>state := HALF_OPEN, successCount := 0\<rparr>
      else cb)"

definition trip :: "CircuitBreaker \<Rightarrow> int \<Rightarrow> CircuitBreaker" where
  "trip cb now = cb\<lparr>state := OPEN, lastFailureTime := now\<rparr>"

definition reset :: "CircuitBreaker \<Rightarrow> CircuitBreaker" where
  "reset cb = cb\<lparr>state := CLOSED, failureCount := 0, successCount := 0\<rparr>"

definition onSuccess :: "CircuitBreaker \<Rightarrow> CircuitBreaker" where
  "onSuccess cb =
     (if state cb = HALF_OPEN then
        (let cb' = cb\<lparr>successCount := successCount cb + 1\<rparr> in
         if successCount cb' \<ge> successThreshold_of (options cb') then reset cb' else cb')
      else if state cb = CLOSED then cb\<lparr>failureCount := 0\<rparr>
      else cb)"

definition onFailure :: "CircuitBreaker \<Rightarrow> thrown \<Rightarrow> int \<Rightarrow> CircuitBreaker" where
  "onFailure cb error now =
     (if \<not> shouldTrip_of (options cb) error then cb
      else if state cb = CLOSED then
        (let cb' = cb\<lparr>failureCount := failureCount cb + 1\<rparr> in
         if failureCount cb' \<ge> failureThreshold (options cb') then trip cb' now else cb')
      else if state cb = HALF_OPEN then trip cb now
      else cb)"

definition getState :: "CircuitBreaker \<Rightarrow> int \<Rightarrow> CircuitBreakerState \<times> CircuitBreaker" where
  "getState cb now = (let cb' = updateState cb now in (state cb', cb'))"

text \<open>
  \<open>execute(task)\<close> runs in two parts, split at \<open>await task()\<close>. The first, at time \<open>now\<close>,
  either throws the 503 error (\<open>Inl\<close>) or invokes the task (\<open>Inr\<close>); the second runs when
  the task has settled with \<open>outcome\<close>, at the time \<open>now\<close> of that moment, and hands the
  outcome to the caller. Calls of other \<open>execute\<close>s can run between the two.
\<close>

definition circuit_open_error :: "int \<Rightarrow> thrown" where
  "circuit_open_error t =
     ApiError 503 ''Circuit breaker is OPEN''
       (Some [(''code'', Str ''CIRCUIT_BREAKER_OPEN''), (''lastFailure'', IsoTime t)])"

definition execute_enter :: "CircuitBreaker \<Rightarrow> int \<Rightarrow> (thrown + unit) \<times> CircuitBreaker" where
  "execute_enter cb now =
     (let cb' = updateState cb now in
      if state cb' = OPEN then (Inl (circuit_open_error (lastFailureTime cb')), cb')
      else (Inr (), cb'))"

definition execute_settled ::
  "CircuitBreaker \<Rightarrow> int \<Rightarrow> thrown + 'a \<Rightarrow> (thrown + 'a) \<times> CircuitBreaker" where
  "execute_settled cb now outcome =
     (case outcome of
        Inr result \<Rightarrow> (Inr result, onSuccess cb)
      | Inl error \<Rightarrow> (Inl error, onFailure cb error now))"

text \<open>
  What happens to one breaker, in order: a call of \<open>execute\<close> enters, an awaited task
  settles, or \<open>getState()\<close> is called; each with its \<open>Date.now()\<close>.
\<close>

datatype 'a cb_event = Execute int | Settle int "thrown + 'a" | GetState int

datatype 'a cb_response =
    Reject thrown       \<comment> \<open>\<open>execute\<close> threw before invoking the task\<close>
  | Invoked             \<comment> \<open>\<open>execute\<close> invoked the task and awaits it\<close>
  | Outcome "thrown + 'a"  \<comment> \<open>\<open>execute\<close> returned the value or rethrew the failure\<close>
  | StateIs CircuitBreakerState

fun event_time :: "'a cb_event \<Rightarrow> int" where
  "event_time (Execute t) = t"
| "event_time (Settle t outcome) = t"
| "event_time (GetState t) = t"

fun cb_step :: "CircuitBreaker \<Rightarrow> 'a cb_event \<Rightarrow> 'a cb_response \<times> CircuitBreaker" where
  "cb_step cb (Execute now) =
     (case execute_enter cb now of (Inl e, cb') \<Rightarrow> (Reject e, cb') | (Inr u, cb') \<Rightarrow> (Invoked, cb'))"
| "cb_step cb (Settle now outcome) =
     (case execute_settled cb now outcome of (r, cb') \<Rightarrow> (Outcome r, cb'))"
| "cb_step cb (GetState now) = (case getState cb now of (s, cb') \<Rightarrow> (StateIs s, cb'))"

fun cb_run :: "CircuitBreaker \<Rightarrow> 'a cb_event list \<Rightarrow> 'a cb_response list \<times> CircuitBreaker" where
  "cb_run cb [] = ([], cb)"
| "cb_run cb (ev # evs) =
     (case cb_step cb ev of (r, cb') \<Rightarrow>
        (case cb_run cb' evs of (rs, cb'') \<Rightarrow> (r # rs, cb'')))"

fun is_failure :: "'a cb_event \<Rightarrow> bool" where
  "is_failure (Settle t (Inl e)) = True"
| "is_failure ev = False"

fun is_success :: "'a cb_event \<Rightarrow> bool" where
  "is_success (Settle t (Inr v)) = True"
| "is_success ev = False"

section \<open>parallelLimit (concurrency.ts)\<close>









section \<open>withTimeout (async.ts)\<close>










section \<open>Properties of retryAsync\<close>

declare retry_loop.simps [simp del]


lemma sleeps_append: "sleeps (xs @ ys) = sleeps xs @ sleeps ys"
  by (induction xs rule: sleeps.induct) auto

lemma sleeps_attempts:
  "sleeps (concat (map (attempt_effects opts e d a) [a..<s])) =
     map (\<lambda>i. backoff d (backoffMultiplier_of opts) (maxDelay_of opts) (i - a)) [a..<s]"
  by (induction s) (auto simp: sleeps_append attempt_effects_def)







lemma retry_loop_sleeps:
  "\<exists>n. sleeps (snd (retry_loop fn opts a d le effects)) =
        sleeps effects @ map (backoff d (backoffMultiplier_of opts) (maxDelay_of opts)) [0..<n]"
proof (induction fn opts a d le effects rule: retry_loop.induct)
  case (1 fn opts attempt currentDelay lastError effects)
  let ?m = "backoffMultiplier_of opts" and ?M = "maxDelay_of opts"
  show ?case
  proof (cases "int attempt \<le> retries opts \<and> (\<exists>x. fn attempt = Inl x \<and>
        \<not> (int attempt = retries opts \<or> \<not> shouldRetry_of opts (toError x) attempt))")
    case False
    then have "sleeps (snd (retry_loop fn opts attempt currentDelay lastError effects)) = sleeps effects"
      by (auto simp add: retry_loop.simps[of fn opts attempt] Let_def sleeps_append
          split: sum.splits option.splits)
    then show ?thesis by (intro exI[of _ 0]) simp
  next
    case True
    then obtain x where x: "int attempt \<le> retries opts" "fn attempt = Inl x"
      "\<not> (int attempt = retries opts \<or> \<not> shouldRetry_of opts (toError x) attempt)" by blast
    from "1.IH"[OF x(1) x(2) refl x(3)]
    obtain n where n: "sleeps (snd (retry_loop fn opts (attempt + 1)
                     (min (currentDelay * ?m) ?M) (Some (toError x))
                     (effects @ [Invoke attempt]
                          @ (if onRetry opts then [OnRetry (toError x) (attempt + 1)] else [])
                          @ [Sleep currentDelay]))) =
        sleeps (effects @ [Invoke attempt]
                          @ (if onRetry opts then [OnRetry (toError x) (attempt + 1)] else [])
                          @ [Sleep currentDelay]) @ map (backoff (min (currentDelay * ?m) ?M) ?m ?M) [0..<n]"
      by blast
    have shift: "backoff (min (currentDelay * ?m) ?M) ?m ?M j = backoff currentDelay ?m ?M (Suc j)" for j
      by (induction j) simp_all
    have "map (backoff currentDelay ?m ?M) [0..<Suc n] =
          currentDelay # map (backoff (min (currentDelay * ?m) ?M) ?m ?M) [0..<n]"
      by (simp add: upt_conv_Cons map_Suc_upt[symmetric] shift del: upt_Suc)
    with n x show ?thesis
      by (intro exI[of _ "Suc n"])
         (simp add: retry_loop.simps[of fn opts attempt] Let_def sleeps_append del: upt_Suc)
  qed
qed

lemma backoff_closed:
  assumes "d \<le> M" "1 \<le> m"
  shows "backoff d m M k = min (d * m ^ k) M"
proof (induction k)
  case 0
  with assms show ?case by simp
next
  case (Suc k)
  show ?case
  proof (cases "d * m ^ k \<le> M")
    case True
    then show ?thesis using Suc by (simp add: min_def mult_ac)
  next
    case False
    then have "M < d * m ^ k" by simp
    have "0 < d" 
    proof (rule ccontr)
      assume "\<not> 0 < d"
      then have "d \<le> 0" by simp
      moreover have "1 \<le> m ^ k" using assms(2) by simp
      ultimately have "d * m ^ k \<le> d" 
        by (metis mult.right_neutral mult_left_mono_neg)
      with assms(1) False show False by simp
    qed
    then have M0: "0 \<le> M" using assms(1) by simp
    have "M \<le> M * m" using M0 assms(2) by (simp add: mult_le_cancel_left1)
    moreover have "M \<le> d * m ^ k * m" 
    proof -
      have "M \<le> d * m ^ k" using False by simp
      also have "\<dots> \<le> d * m ^ k * m"
      proof -
        have "0 \<le> d * m ^ k" using \<open>0 < d\<close> assms(2) by simp
        from mult_left_mono[OF assms(2) this] show ?thesis by simp
      qed
      finally show ?thesis .
    qed
    ultimately show ?thesis using Suc False by (simp add: min_def mult_ac)
  qed
qed


lemma toError_instanceof: "instanceof_Error x \<Longrightarrow> toError x = x"
  by (cases x) simp_all

lemma retryAsync_sleeps_capped:
  assumes "delay_of opts \<le> maxDelay_of opts" and "1 \<le> backoffMultiplier_of opts"
  shows "\<exists>n. sleeps (snd (retryAsync fn opts)) =
           map (\<lambda>k. min (delay_of opts * backoffMultiplier_of opts ^ k) (maxDelay_of opts)) [0..<n]"
proof -
  from retry_loop_sleeps[of fn opts 0 "delay_of opts" None "[]"]
  obtain n where "sleeps (snd (retryAsync fn opts)) =
      map (backoff (delay_of opts) (backoffMultiplier_of opts) (maxDelay_of opts)) [0..<n]"
    by (auto simp: retryAsync_def)
  moreover have "backoff (delay_of opts) (backoffMultiplier_of opts) (maxDelay_of opts) =
      (\<lambda>k. min (delay_of opts * backoffMultiplier_of opts ^ k) (maxDelay_of opts))"
    using backoff_closed[OF assms] by (intro ext)
  ultimately show ?thesis by (intro exI[of _ n]) simp
qed

text \<open>
  C3. The delay slept before the first retry is the base delay itself, also when the
  base delay exceeds \<open>maxDelay\<close>: with \<open>delay: 50000\<close>, \<open>backoffMultiplier: 2\<close> and
  \<open>maxDelay: 30000\<close> the one sleep of the run lasts 50000, where
  \<open>min (delay * multiplier ^ 0) maxDelay\<close> is 30000. The cap is applied to the delays
  computed after a sleep only (\<open>retry_loop_sleeps\<close>, \<open>retryAsync_sleeps_capped\<close>).
\<close>

theorem retryAsync_first_delay_uncapped:
  "sleeps (snd (retryAsync (\<lambda>i. if i = 0 then Inl (Error ''down'') else (Inr () :: thrown + unit))
      \<lparr>retries = 1, delay = Some 50000, backoffMultiplier = Some 2, maxDelay = Some 30000,
       shouldRetry = None, onRetry = False\<rparr>)) = [50000]
   \<and> min (50000 * 2 ^ 0) 30000 = (30000 :: rat)"
  by (simp add: retryAsync_def retry_loop.simps[of _ _ 0] retry_loop.simps[of _ _ 1]
        retry_loop.simps[of _ _ "Suc 0"] delay_of_def Let_def shouldRetry_of_def
        maxDelay_of_def backoffMultiplier_of_def)




section \<open>Properties of semaphore\<close>

lemma sem_run_acquires:
  "sem_run limit \<lparr>count = c, queue = q\<rparr> (map Acquire ws) =
     (map Resolved (take (nat (limit - c)) ws) @ map Enqueued (drop (nat (limit - c)) ws),
      \<lparr>count = c + int (min (nat (limit - c)) (length ws)),
       queue = q @ drop (nat (limit - c)) ws\<rparr>)"
proof (induction ws arbitrary: c q)
  case Nil
  then show ?case by simp
next
  case (Cons w ws)
  show ?case
  proof (cases "c < limit")
    case True
    then have n: "nat (limit - c) = Suc (nat (limit - (c + 1)))" by simp
    show ?thesis
      using True Cons.IH[of "c + 1" q]
      by (simp add: acquire_def n del: One_nat_def)
  next
    case False
    then have n: "nat (limit - c) = 0" by simp
    show ?thesis
      using False Cons.IH[of c "q @ [w]"]
      by (simp add: acquire_def n)
  qed
qed

lemma sem_step_fifo:
  "sem_step limit s op = (r, s') \<Longrightarrow>
     queue s @ enqueued [r] = woken [r] @ queue s'"
  by (cases op) (auto simp: acquire_def release_def split: if_splits list.splits)

lemma woken_Cons: "woken (r # rs) = woken [r] @ woken rs"
  by (cases r) simp_all

lemma enqueued_Cons: "enqueued (r # rs) = enqueued [r] @ enqueued rs"
  by (cases r) simp_all

lemma sem_run_fifo:
  "queue s @ enqueued (fst (sem_run limit s ops)) =
     woken (fst (sem_run limit s ops)) @ queue (snd (sem_run limit s ops))"
proof (induction ops arbitrary: s)
  case Nil
  then show ?case by simp
next
  case (Cons op ops)
  obtain r s' where st: "sem_step limit s op = (r, s')" by (cases "sem_step limit s op")
  obtain rs s'' where rn: "sem_run limit s' ops = (rs, s'')" by (cases "sem_run limit s' ops")
  from Cons.IH[of s'] rn have ih: "queue s' @ enqueued rs = woken rs @ queue s''" by simp
  from sem_step_fifo[OF st] have one: "queue s @ enqueued [r] = woken [r] @ queue s'" .
  have "queue s @ enqueued (r # rs) = (queue s @ enqueued [r]) @ enqueued rs"
    by (subst enqueued_Cons) simp
  also have "\<dots> = woken [r] @ (queue s' @ enqueued rs)" using one by simp
  also have "\<dots> = woken (r # rs) @ queue s''" using ih by (subst (2) woken_Cons) simp
  finally show ?case using st rn by simp
qed

text \<open>
  C2. On a new semaphore with the limit \<open>limit\<close>, a sequence of \<open>acquire()\<close> calls with
  no \<open>release()\<close> resolves the first \<open>limit\<close> calls at once and leaves every later one,
  the one after them first, pending in the queue in arrival order. \<open>release()\<close> with a
  waiter in the queue resolves the oldest one and changes nothing but the queue (the
  count stays); with an empty queue it decrements the count. Over any sequence of calls
  from any state, the waiters woken so far followed by those still queued are the
  waiters queued at the start followed by the later arrivals: waiters are woken in
  arrival order and none is skipped.
\<close>

theorem semaphore_fifo:
  "sem_run limit semaphore (map Acquire ws) =
     (map Resolved (take (nat limit) ws) @ map Enqueued (drop (nat limit) ws),
      \<lparr>count = int (min (nat limit) (length ws)), queue = drop (nat limit) ws\<rparr>)
   \<and> (queue s = w # rest \<longrightarrow> release s = (Some w, s\<lparr>queue := rest\<rparr>))
   \<and> (queue s = [] \<longrightarrow> release s = (None, s\<lparr>count := count s - 1\<rparr>))
   \<and> queue s @ enqueued (fst (sem_run limit s ops)) =
       woken (fst (sem_run limit s ops)) @ queue (snd (sem_run limit s ops))"
  using sem_run_acquires[of limit 0 "[]" ws] sem_run_fifo[of s limit ops]
  by (simp add: semaphore_def release_def)

theorem semaphore_fifo_witness:
  "sem_run 2 semaphore (map Acquire [10, 11, 12, 13 :: nat]) =
     ([Resolved 10, Resolved 11, Enqueued 12, Enqueued 13], \<lparr>count = 2, queue = [12, 13]\<rparr>)
   \<and> release \<lparr>count = 2, queue = [12, 13 :: nat]\<rparr> = (Some 12, \<lparr>count = 2, queue = [13]\<rparr>)
   \<and> release \<lparr>count = 2, queue = [] :: nat list\<rparr> = (None, \<lparr>count = 1, queue = []\<rparr>)
   \<and> woken (fst (sem_run 1 semaphore [Acquire 1, Acquire 2, Acquire 3, Acquire (4::nat), Release, Release, Release])) = [2, 3, 4]"
  using semaphore_fifo[where limit = 2 and ws = "[10, 11, 12, 13 :: nat]"
           and s = "\<lparr>count = 2, queue = [12, 13 :: nat]\<rparr>" and w = 12 and rest = "[13]" and ops = "[]"]
        semaphore_fifo[where limit = 1 and ws = "[]" and s = "\<lparr>count = 2, queue = [] :: nat list\<rparr>"
           and ops = "[]"]
        semaphore_fifo[where limit = 1 and ws = "[] :: nat list" and s = semaphore
           and ops = "[Acquire 1, Acquire 2, Acquire 3, Acquire (4::nat), Release, Release, Release]"]
  by (simp add: semaphore_def acquire_def release_def)

text \<open>
  C10. \<open>release()\<close> on a new semaphore returns normally and leaves the count at \<open>-1\<close>;
  \<open>available\<close> is then \<open>limit + 1\<close>, and of the \<open>acquire()\<close> calls that follow, the
  first \<open>limit + 1\<close> resolve at once.
\<close>

theorem semaphore_unmatched_release:
  "release (semaphore :: 'w Semaphore) = (None, \<lparr>count = - 1, queue = []\<rparr>)
   \<and> available limit (snd (release (semaphore :: 'w Semaphore))) = limit + 1
   \<and> sem_run limit (snd (release semaphore)) (map Acquire ws) =
       (map Resolved (take (nat (limit + 1)) ws) @ map Enqueued (drop (nat (limit + 1)) ws),
        \<lparr>count = - 1 + int (min (nat (limit + 1)) (length ws)), queue = drop (nat (limit + 1)) ws\<rparr>)"
  using sem_run_acquires[of limit "- 1" "[]" ws]
  by (simp add: semaphore_def release_def available_def)


section \<open>Properties of CircuitBreaker\<close>

lemma cb_run_append:
  "cb_run cb (xs @ ys) =
     (fst (cb_run cb xs) @ fst (cb_run (snd (cb_run cb xs)) ys),
      snd (cb_run (snd (cb_run cb xs)) ys))"
  by (induction xs arbitrary: cb) (auto split: prod.splits)

lemma cb_run_snd_append: "snd (cb_run cb (xs @ ys)) = snd (cb_run (snd (cb_run cb xs)) ys)"
  by (simp add: cb_run_append)

lemma cb_run_snd_single: "snd (cb_run cb [ev]) = snd (cb_step cb ev)"
  by (simp split: prod.splits)

lemma cb_run_snd_Cons: "snd (cb_run cb (ev # evs)) = snd (cb_run (snd (cb_step cb ev)) evs)"
  by (simp split: prod.splits)

lemma closed_step:
  assumes "state cb = CLOSED" and "shouldTrip (options cb) = None" and "\<not> is_success ev"
    and "failureCount cb + (if is_failure ev then 1 else 0) < failureThreshold (options cb)"
  shows "snd (cb_step cb ev) = cb\<lparr>failureCount := failureCount cb + (if is_failure ev then 1 else 0)\<rparr>"
proof (cases ev)
  case (Execute t)
  with assms show ?thesis by (simp add: execute_enter_def updateState_def)
next
  case (Settle t outcome)
  with assms show ?thesis
    by (cases outcome)
       (simp_all add: execute_settled_def onFailure_def shouldTrip_of_def Let_def)
next
  case (GetState t)
  with assms show ?thesis by (simp add: getState_def updateState_def)
qed

lemma closed_run:
  assumes "state cb = CLOSED" and "shouldTrip (options cb) = None"
    and "\<forall>ev \<in> set evs. \<not> is_success ev"
    and "failureCount cb + int (length (filter is_failure evs)) < failureThreshold (options cb)"
  shows "snd (cb_run cb evs) = cb\<lparr>failureCount := failureCount cb + int (length (filter is_failure evs))\<rparr>"
  using assms
proof (induction evs arbitrary: cb)
  case Nil
  then show ?case by simp
next
  case (Cons ev evs)
  let ?k = "if is_failure ev then 1 else (0::int)"
  let ?cb = "cb\<lparr>failureCount := failureCount cb + ?k\<rparr>"
  have lt: "failureCount cb + ?k < failureThreshold (options cb)"
    using Cons.prems(4) by (auto split: if_splits)
  have st: "snd (cb_step cb ev) = ?cb"
    using closed_step[OF Cons.prems(1,2) _ lt] Cons.prems(3) by simp
  have "snd (cb_run ?cb evs) = ?cb\<lparr>failureCount := failureCount ?cb + int (length (filter is_failure evs))\<rparr>"
    apply (rule Cons.IH)
    using Cons.prems by (auto split: if_splits)
  then show ?case using st
    by (auto split: prod.splits)
qed

lemma open_step:
  assumes "state cb = OPEN" and "event_time ev - lastFailureTime cb < resetTimeout (options cb)"
  shows "snd (cb_step cb ev) = cb"
proof (cases ev)
  case (Execute t)
  with assms show ?thesis by (simp add: execute_enter_def updateState_def)
next
  case (Settle t outcome)
  with assms show ?thesis
    by (cases outcome) (simp_all add: execute_settled_def onFailure_def onSuccess_def)
next
  case (GetState t)
  with assms show ?thesis by (simp add: getState_def updateState_def)
qed

lemma open_run:
  assumes "state cb = OPEN"
    and "\<forall>ev \<in> set evs. event_time ev - lastFailureTime cb < resetTimeout (options cb)"
  shows "snd (cb_run cb evs) = cb"
  using assms
proof (induction evs)
  case Nil
  then show ?case by simp
next
  case (Cons ev evs)
  then have "snd (cb_step cb ev) = cb" using open_step[of cb ev] by simp
  with Cons show ?case by (auto split: prod.splits)
qed

lemma open_execute:
  assumes "state cb = OPEN" and "now - lastFailureTime cb < resetTimeout (options cb)"
  shows "cb_step cb (Execute now) = (Reject (circuit_open_error (lastFailureTime cb)), cb)"
  using assms by (simp add: execute_enter_def updateState_def)

text \<open>
  C1. A new breaker with \<open>failureThreshold \<ge> 1\<close> and the default \<open>shouldTrip\<close>. Let
  \<open>failureThreshold\<close> failures be recorded with no success between them (calls of
  \<open>execute\<close> and \<open>getState\<close> may come between), the last one at time \<open>t0\<close>. Then the
  state is \<open>OPEN\<close> and the trip time is \<open>t0\<close>; and after any further events that all
  happen before \<open>resetTimeout\<close> has elapsed since \<open>t0\<close>, a call of \<open>execute\<close> made
  before that time too throws the \<open>ApiError\<close> with the status code 503 whose details
  carry \<open>t0\<close>, does not invoke its task and leaves the breaker as it was at the trip.
\<close>

theorem breaker_trips_then_rejects:
  assumes "1 \<le> failureThreshold opts" and "shouldTrip opts = None"
    and "\<forall>ev \<in> set pre. \<not> is_success ev"
    and "int (length (filter is_failure pre)) = failureThreshold opts - 1"
    and "\<forall>ev \<in> set later. event_time ev - t0 < resetTimeout opts"
    and "now - t0 < resetTimeout opts"
  shows "state (snd (cb_run (CircuitBreaker_new opts) (pre @ [Settle t0 (Inl e)]))) = OPEN
       \<and> lastFailureTime (snd (cb_run (CircuitBreaker_new opts) (pre @ [Settle t0 (Inl e)]))) = t0
       \<and> cb_step (snd (cb_run (CircuitBreaker_new opts) (pre @ [Settle t0 (Inl e)] @ later))) (Execute now) =
           (Reject (ApiError 503 ''Circuit breaker is OPEN''
                      (Some [(''code'', Str ''CIRCUIT_BREAKER_OPEN''), (''lastFailure'', IsoTime t0)])),
            snd (cb_run (CircuitBreaker_new opts) (pre @ [Settle t0 (Inl e)])))"
proof -
  let ?new = "CircuitBreaker_new opts"
  let ?cb0 = "?new\<lparr>failureCount := failureThreshold opts - 1\<rparr>"
  let ?cb1 = "?new\<lparr>failureCount := failureThreshold opts, state := OPEN, lastFailureTime := t0\<rparr>"
  have "snd (cb_run ?new pre) = ?new\<lparr>failureCount := failureCount ?new + int (length (filter is_failure pre))\<rparr>"
    by (rule closed_run) (use assms in \<open>simp_all add: CircuitBreaker_new_def\<close>)
  then have pre: "snd (cb_run ?new pre) = ?cb0"
    using assms(4) by (simp add: CircuitBreaker_new_def)
  have trip: "snd (cb_step ?cb0 (Settle t0 (Inl e))) = ?cb1"
    using assms(2)
    by (simp add: execute_settled_def onFailure_def shouldTrip_of_def Let_def trip_def
          CircuitBreaker_new_def)
  have run1: "snd (cb_run ?new (pre @ [Settle t0 (Inl e)])) = ?cb1"
    using pre trip by (simp add: cb_run_snd_append cb_run_snd_single del: cb_run.simps cb_step.simps)
  have st: "state ?cb1 = OPEN" "lastFailureTime ?cb1 = t0" "options ?cb1 = opts"
    by (simp_all add: CircuitBreaker_new_def)
  have later: "snd (cb_run ?cb1 later) = ?cb1"
    by (rule open_run) (use assms(5) st in simp_all)
  have run2: "snd (cb_run ?new (pre @ [Settle t0 (Inl e)] @ later)) = ?cb1"
    using cb_run_snd_append[of ?new "pre @ [Settle t0 (Inl e)]" later] run1 later by simp
  have "cb_step ?cb1 (Execute now) = (Reject (circuit_open_error (lastFailureTime ?cb1)), ?cb1)"
    by (rule open_execute) (use assms(6) st in simp_all)
  then show ?thesis
    unfolding run1 run2 using st by (simp add: circuit_open_error_def)
qed

theorem breaker_trips_then_rejects_witness:
  "state (snd (cb_run (CircuitBreaker_new \<lparr>failureThreshold = 2, resetTimeout = 1000, successThreshold = None, shouldTrip = None\<rparr>)
       ([Execute 0, Settle 5 (Inl (Error ''a'')), Execute 6] @ [Settle 10 (Inl (Error ''b'') :: thrown + unit)]))) = OPEN
   \<and> cb_step (snd (cb_run (CircuitBreaker_new \<lparr>failureThreshold = 2, resetTimeout = 1000, successThreshold = None, shouldTrip = None\<rparr>)
       ([Execute 0, Settle 5 (Inl (Error ''a'')), Execute 6] @ [Settle 10 (Inl (Error ''b'') :: thrown + unit)]
          @ [Execute 20, Settle 30 (Inr ()), GetState 40]))) (Execute 500) =
           (Reject (ApiError 503 ''Circuit breaker is OPEN''
                      (Some [(''code'', Str ''CIRCUIT_BREAKER_OPEN''), (''lastFailure'', IsoTime 10)])),
            snd (cb_run (CircuitBreaker_new \<lparr>failureThreshold = 2, resetTimeout = 1000, successThreshold = None, shouldTrip = None\<rparr>)
       ([Execute 0, Settle 5 (Inl (Error ''a'')), Execute 6] @ [Settle 10 (Inl (Error ''b''))])))"
  using breaker_trips_then_rejects[where opts = "\<lparr>failureThreshold = 2, resetTimeout = 1000, successThreshold = None, shouldTrip = None\<rparr>"
          and pre = "[Execute 0, Settle 5 (Inl (Error ''a'')), Execute 6] :: unit cb_event list"
          and ?t0.0 = 10 and e = "Error ''b''"
          and later = "[Execute 20, Settle 30 (Inr ()), GetState 40]" and now = 500]
  by (simp add: CircuitBreaker_new_def execute_enter_def execute_settled_def updateState_def
        onFailure_def onSuccess_def shouldTrip_of_def trip_def Let_def getState_def)

lemma half_open_step:
  assumes "state cb = HALF_OPEN" and "\<not> is_failure ev"
    and "successCount cb + (if is_success ev then 1 else 0) < successThreshold_of (options cb)"
  shows "snd (cb_step cb ev) = cb\<lparr>successCount := successCount cb + (if is_success ev then 1 else 0)\<rparr>"
proof (cases ev)
  case (Execute t)
  with assms show ?thesis by (simp add: execute_enter_def updateState_def)
next
  case (Settle t outcome)
  with assms show ?thesis
    by (cases outcome) (simp_all add: execute_settled_def onSuccess_def Let_def)
next
  case (GetState t)
  with assms show ?thesis by (simp add: getState_def updateState_def)
qed

lemma half_open_run:
  assumes "state cb = HALF_OPEN" and "\<forall>ev \<in> set evs. \<not> is_failure ev"
    and "successCount cb + int (length (filter is_success evs)) < successThreshold_of (options cb)"
  shows "snd (cb_run cb evs) = cb\<lparr>successCount := successCount cb + int (length (filter is_success evs))\<rparr>"
  using assms
proof (induction evs arbitrary: cb)
  case Nil
  then show ?case by simp
next
  case (Cons ev evs)
  let ?k = "if is_success ev then 1 else (0::int)"
  let ?cb = "cb\<lparr>successCount := successCount cb + ?k\<rparr>"
  have lt: "successCount cb + ?k < successThreshold_of (options cb)"
    using Cons.prems(3) by (auto split: if_splits)
  have st: "snd (cb_step cb ev) = ?cb"
    using half_open_step[OF Cons.prems(1) _ lt] Cons.prems(2) by simp
  have "snd (cb_run ?cb evs) = ?cb\<lparr>successCount := successCount ?cb + int (length (filter is_success evs))\<rparr>"
    apply (rule Cons.IH)
    using Cons.prems by (auto split: if_splits)
  then show ?case using st
    by (auto split: prod.splits)
qed

lemma open_elapsed_execute:
  assumes "state cb = OPEN" and "resetTimeout (options cb) \<le> now - lastFailureTime cb"
  shows "cb_step cb (Execute now) = (Invoked, cb\<lparr>state := HALF_OPEN, successCount := 0\<rparr>)"
  using assms by (simp add: execute_enter_def updateState_def)

text \<open>
  C4, as the code has it. For a breaker in \<open>OPEN\<close>, once \<open>resetTimeout\<close> has elapsed since
  the trip: a call of \<open>execute\<close> moves it to \<open>HALF_OPEN\<close> with \<open>successCount\<close> 0 and
  invokes the task, and \<open>getState\<close> makes the same move. From there,
  \<open>successThreshold\<close> successes with no failure between them (for
  \<open>successThreshold \<ge> 1\<close>) leave the breaker \<open>CLOSED\<close> with both counters 0. A failure
  recorded in \<open>HALF_OPEN\<close> trips the breaker to \<open>OPEN\<close> when \<open>shouldTrip\<close> accepts it
  (always, with the default \<open>shouldTrip\<close>) and changes nothing when \<open>shouldTrip\<close>
  refuses it.
\<close>

theorem breaker_half_open_recovery:
  assumes "state cb = OPEN" and "resetTimeout (options cb) \<le> now - lastFailureTime cb"
    and "1 \<le> successThreshold_of (options cb)"
    and "\<forall>ev \<in> set evs. \<not> is_failure ev"
    and "int (length (filter is_success evs)) = successThreshold_of (options cb) - 1"
    and "state hb = HALF_OPEN"
  shows "cb_step cb (Execute now) = (Invoked, cb\<lparr>state := HALF_OPEN, successCount := 0\<rparr>)
       \<and> getState cb now = (HALF_OPEN, cb\<lparr>state := HALF_OPEN, successCount := 0\<rparr>)
       \<and> snd (cb_run cb (Execute now # evs @ [Settle t (Inr v)])) =
           cb\<lparr>state := CLOSED, failureCount := 0, successCount := 0\<rparr>
       \<and> snd (cb_step hb (Settle t (Inl e))) =
           (if shouldTrip_of (options hb) e then hb\<lparr>state := OPEN, lastFailureTime := t\<rparr> else hb)"
proof -
  let ?hb = "cb\<lparr>state := HALF_OPEN, successCount := 0\<rparr>"
  note enter = open_elapsed_execute[OF assms(1,2)]
  have gs: "getState cb now = (HALF_OPEN, ?hb)"
    using assms(1,2) by (simp add: getState_def updateState_def)
  have "snd (cb_run ?hb evs) = ?hb\<lparr>successCount := successCount ?hb + int (length (filter is_success evs))\<rparr>"
    by (rule half_open_run) (use assms(3,4,5) in simp_all)
  then have mid: "snd (cb_run ?hb evs) = ?hb\<lparr>successCount := successThreshold_of (options cb) - 1\<rparr>"
    using assms(5) by simp
  have last: "snd (cb_step (?hb\<lparr>successCount := successThreshold_of (options cb) - 1\<rparr>) (Settle t (Inr v))) =
      cb\<lparr>state := CLOSED, failureCount := 0, successCount := 0\<rparr>"
    by (simp add: execute_settled_def onSuccess_def Let_def reset_def)
  have "snd (cb_run cb (Execute now # evs @ [Settle t (Inr v)])) =
        snd (cb_run ?hb (evs @ [Settle t (Inr v)]))"
    by (simp add: cb_run_snd_Cons enter del: cb_run.simps cb_step.simps)
  also have "\<dots> = cb\<lparr>state := CLOSED, failureCount := 0, successCount := 0\<rparr>"
    using mid last by (simp add: cb_run_snd_append cb_run_snd_single del: cb_run.simps cb_step.simps)
  finally have close: "snd (cb_run cb (Execute now # evs @ [Settle t (Inr v)])) =
           cb\<lparr>state := CLOSED, failureCount := 0, successCount := 0\<rparr>" .
  have fail: "snd (cb_step hb (Settle t (Inl e))) =
           (if shouldTrip_of (options hb) e then hb\<lparr>state := OPEN, lastFailureTime := t\<rparr> else hb)"
    using assms(6) by (simp add: execute_settled_def onFailure_def trip_def)
  show ?thesis using gs close fail by (simp add: enter del: cb_run.simps cb_step.simps)
qed

theorem breaker_half_open_recovery_witness:
  "cb_step \<lparr>state = OPEN, failureCount = 3, successCount = 1, lastFailureTime = 1000,
            options = \<lparr>failureThreshold = 3, resetTimeout = 500, successThreshold = None, shouldTrip = None\<rparr>\<rparr>
      (Execute 1500 :: unit cb_event) =
     (Invoked, \<lparr>state = HALF_OPEN, failureCount = 3, successCount = 0, lastFailureTime = 1000,
            options = \<lparr>failureThreshold = 3, resetTimeout = 500, successThreshold = None, shouldTrip = None\<rparr>\<rparr>)
   \<and> snd (cb_run \<lparr>state = OPEN, failureCount = 3, successCount = 1, lastFailureTime = 1000,
            options = \<lparr>failureThreshold = 3, resetTimeout = 500, successThreshold = None, shouldTrip = None\<rparr>\<rparr>
        (Execute 1500 # [Settle 1510 (Inr ()), Execute 1520] @ [Settle 1530 (Inr ())])) =
      \<lparr>state = CLOSED, failureCount = 0, successCount = 0, lastFailureTime = 1000,
            options = \<lparr>failureThreshold = 3, resetTimeout = 500, successThreshold = None, shouldTrip = None\<rparr>\<rparr>
   \<and> snd (cb_step \<lparr>state = HALF_OPEN, failureCount = 3, successCount = 1, lastFailureTime = 1000,
            options = \<lparr>failureThreshold = 3, resetTimeout = 500, successThreshold = None, shouldTrip = None\<rparr>\<rparr>
        (Settle 1530 (Inl (Error ''down'') :: thrown + unit))) =
      \<lparr>state = OPEN, failureCount = 3, successCount = 1, lastFailureTime = 1530,
            options = \<lparr>failureThreshold = 3, resetTimeout = 500, successThreshold = None, shouldTrip = None\<rparr>\<rparr>"
  using breaker_half_open_recovery[where
          cb = "\<lparr>state = OPEN, failureCount = 3, successCount = 1, lastFailureTime = 1000,
            options = \<lparr>failureThreshold = 3, resetTimeout = 500, successThreshold = None, shouldTrip = None\<rparr>\<rparr>"
          and now = 1500 and evs = "[Settle 1510 (Inr ()), Execute 1520]" and t = 1530 and v = "()"
          and hb = "\<lparr>state = HALF_OPEN, failureCount = 3, successCount = 1, lastFailureTime = 1000,
            options = \<lparr>failureThreshold = 3, resetTimeout = 500, successThreshold = None, shouldTrip = None\<rparr>\<rparr>"
          and e = "Error ''down''"]
  by (simp add: successThreshold_of_def shouldTrip_of_def execute_enter_def execute_settled_def
        updateState_def onFailure_def onSuccess_def trip_def reset_def Let_def getState_def)


text \<open>
  C4. A failure in \<open>HALF_OPEN\<close> that \<open>shouldTrip\<close> refuses does not return the breaker to
  \<open>OPEN\<close>: the breaker trips on \<open>major\<close>, goes to \<open>HALF_OPEN\<close> with the call at time
  200, and is still \<open>HALF_OPEN\<close> after that call's task has failed with \<open>minor\<close>.
\<close>

theorem breaker_half_open_failure_ignored:
  "state (snd (cb_run (CircuitBreaker_new
      \<lparr>failureThreshold = 1, resetTimeout = 100, successThreshold = None,
       shouldTrip = Some (\<lambda>e. e \<noteq> Error ''minor'')\<rparr>)
      [Execute 0, Settle 1 (Inl (Error ''major'')), Execute 200, Settle 201 (Inl (Error ''minor'') :: thrown + unit)]))
     = HALF_OPEN
   \<and> state (snd (cb_run (CircuitBreaker_new
      \<lparr>failureThreshold = 1, resetTimeout = 100, successThreshold = None,
       shouldTrip = Some (\<lambda>e. e \<noteq> Error ''minor'')\<rparr>)
      [Execute 0, Settle 1 (Inl (Error ''major'')), Execute (200::int) :: unit cb_event]))
     = HALF_OPEN"
  by (simp add: CircuitBreaker_new_def execute_enter_def execute_settled_def updateState_def
        onFailure_def shouldTrip_of_def trip_def Let_def)


section \<open>Properties of bulkhead\<close>







section \<open>Properties of parallelLimit\<close>















section \<open>Properties of withTimeout\<close>





end
